theory Spec2Isabelle
  imports Complex_Main "HOL-Library.Multiset"
begin

section \<open>JavaScript values used by the scanner\<close>

text \<open>
  A JavaScript number is modelled by its exact value: the three special values and the
  finite numbers as rationals. Subtraction and comparison are exact, which agrees with
  double arithmetic on every value of magnitude below \<open>2 ^ 53\<close>; negative zero is
  identified with zero (both are falsy and both compare equal to \<open>0\<close>).
\<close>

datatype number = NaN | PosInf | NegInf | Fin rat

text \<open>\<open>n > 0\<close> on numbers: false for \<open>NaN\<close>.\<close>

fun gt0 :: "number \<Rightarrow> bool" where
  "gt0 NaN = False"
| "gt0 PosInf = True"
| "gt0 NegInf = False"
| "gt0 (Fin q) = (0 < q)"

text \<open>\<open>n - 1\<close>, the value \<open>n--\<close> leaves in \<open>n\<close>.\<close>

fun dec :: "number \<Rightarrow> number" where
  "dec NaN = NaN"
| "dec PosInf = PosInf"
| "dec NegInf = NegInf"
| "dec (Fin q) = Fin (q - 1)"

text \<open>\<open>a <= b\<close> on numbers: false as soon as one side is \<open>NaN\<close>.\<close>

fun num_le :: "number \<Rightarrow> number \<Rightarrow> bool" where
  "num_le NaN b = False"
| "num_le a NaN = False"
| "num_le NegInf b = True"
| "num_le a PosInf = True"
| "num_le PosInf b = False"
| "num_le a NegInf = False"
| "num_le (Fin p) (Fin q) = (p \<le> q)"

text \<open>
  The eventual state of a promise: \<open>Pending\<close> stands for a promise that never settles.
\<close>

datatype 'a promise = Pending | Fulfilled 'a | Rejected string

subsection \<open>Map objects\<close>

text \<open>
  A \<open>Map\<close> is the list of its entries in insertion order. As in the language
  definition, \<open>delete\<close> empties the entry and leaves its place in the list, \<open>set\<close>
  overwrites the entry of a present key and appends one for an absent key, and an
  iterator is an index into the list that skips the emptied entries.
\<close>

type_synonym ('k, 'v) jsmap = "('k \<times> 'v) option list"

definition map_entries :: "('k, 'v) jsmap \<Rightarrow> ('k \<times> 'v) list" where
  "map_entries m = List.map_filter id m"

definition map_size :: "('k, 'v) jsmap \<Rightarrow> nat" where
  "map_size m = length (map_entries m)"

fun map_delete :: "'k \<Rightarrow> ('k, 'v) jsmap \<Rightarrow> ('k, 'v) jsmap" where
  "map_delete k [] = []"
| "map_delete k (None # m) = None # map_delete k m"
| "map_delete k (Some (k', v) # m) =
     (if k' = k then None # m else Some (k', v) # map_delete k m)"

fun map_set :: "'k \<Rightarrow> 'v \<Rightarrow> ('k, 'v) jsmap \<Rightarrow> ('k, 'v) jsmap" where
  "map_set k v [] = [Some (k, v)]"
| "map_set k v (None # m) = None # map_set k v m"
| "map_set k v (Some (k', v') # m) =
     (if k' = k then Some (k, v) # m else Some (k', v') # map_set k v m)"

text \<open>\<open>new Map(pairs)\<close> sets the pairs one after the other.\<close>

definition new_Map :: "('k \<times> 'v) list \<Rightarrow> ('k, 'v) jsmap" where
  "new_Map kvs = fold (\<lambda>(k, v) m. map_set k v m) kvs []"

text \<open>\<open>array.entries()\<close>: the elements paired with their indices.\<close>

definition entries :: "'a list \<Rightarrow> (nat \<times> 'a) list" where
  "entries xs = zip [0..<length xs] xs"

subsection \<open>Set objects\<close>

text \<open>
  A \<open>Set\<close> is the list of its elements in insertion order, without repetition;
  \<open>new Set(array)\<close> adds the elements of the array one after the other, and spreading
  or iterating the set visits them in this order.
\<close>

type_synonym 'a jsset = "'a list"

definition set_add :: "'a \<Rightarrow> 'a jsset \<Rightarrow> 'a jsset" where
  "set_add x s = (if x \<in> set s then s else s @ [x])"

definition new_Set :: "'a list \<Rightarrow> 'a jsset" where
  "new_Set xs = fold set_add xs []"

definition has :: "'a jsset \<Rightarrow> 'a \<Rightarrow> bool" where
  "has s x = (x \<in> set s)"

subsection \<open>Strings\<close>

text \<open>
  Strings are sequences of eight-bit code units. \<open>toLowerCase\<close> is modelled on the
  ASCII letters; the code units it leaves alone here are none of \<open>0-9a-f\<close> before or
  after lower-casing, so that \<open>toHex\<close> removes them either way.
\<close>

definition toLowerCase :: "string \<Rightarrow> string" where
  "toLowerCase s =
     map (\<lambda>c. case map_of (zip ''ABCDEFGHIJKLMNOPQRSTUVWXYZ'' ''abcdefghijklmnopqrstuvwxyz'') c of
                 None \<Rightarrow> c | Some l \<Rightarrow> l) s"

text \<open>\<open>mac.toLowerCase().replace(/[^0-9a-f]/g, '')\<close>\<close>

definition toHex :: "string \<Rightarrow> string" where
  "toHex mac = filter (\<lambda>c. c \<in> set ''0123456789abcdef'') (toLowerCase mac)"

text \<open>\<open>s.split(c)\<close> for a one-character separator.\<close>

fun split_on :: "char \<Rightarrow> string \<Rightarrow> string list" where
  "split_on c [] = [[]]"
| "split_on c (x # xs) =
     (if x = c then [] # split_on c xs
      else (case split_on c xs of [] \<Rightarrow> [[x]] | p # ps \<Rightarrow> (x # p) # ps))"

subsection \<open>Conversion of strings to numbers\<close>

text \<open>
  \<open>Number(s)\<close> for a string follows the grammar of string numeric literals: white space
  around the literal is dropped, the empty literal is \<open>0\<close>, a literal is an unsigned
  hexadecimal, octal or binary integer, or an optionally signed \<open>Infinity\<close> or decimal
  literal with optional fraction and exponent, and every other string is \<open>NaN\<close>. The
  result is the mathematical value of the literal: the final rounding to a double is
  left out, which is exact for the integers and short decimals used here.
\<close>

definition digit_of :: "char \<Rightarrow> nat option" where
  "digit_of c =
     map_of (zip ''0123456789abcdefABCDEF''
       [0, 1, 2, 3, 4, 5, 6, 7, 8, 9, 10, 11, 12, 13, 14, 15, 10, 11, 12, 13, 14, 15]) c"

definition digits_value :: "nat \<Rightarrow> string \<Rightarrow> nat option" where
  "digits_value b s =
     (if s = [] then None
      else fold (\<lambda>c acc. case acc of None \<Rightarrow> None
                  | Some a \<Rightarrow> (case digit_of c of None \<Rightarrow> None
                      | Some d \<Rightarrow> if d < b then Some (a * b + d) else None)) s (Some 0))"

definition is_space :: "char \<Rightarrow> bool" where
  "is_space c =
     (c \<in> set [CHR 0x09, CHR 0x0A, CHR 0x0B, CHR 0x0C, CHR 0x0D, CHR 0x20, CHR 0xA0])"

definition trim :: "string \<Rightarrow> string" where
  "trim s = rev (dropWhile is_space (rev (dropWhile is_space s)))"

definition is_digit :: "char \<Rightarrow> bool" where
  "is_digit c = (c \<in> set ''0123456789'')"

definition signed_digits :: "string \<Rightarrow> int option" where
  "signed_digits s =
     (case s of
        [] \<Rightarrow> None
      | c # r \<Rightarrow>
          if c = CHR ''+'' then map_option int (digits_value 10 r)
          else if c = CHR ''-'' then map_option (\<lambda>n. - int n) (digits_value 10 r)
          else map_option int (digits_value 10 s))"

definition scale10 :: "rat \<Rightarrow> int \<Rightarrow> rat" where
  "scale10 q e = (if 0 \<le> e then q * 10 ^ nat e else q / 10 ^ nat (- e))"

definition unsigned_decimal :: "string \<Rightarrow> rat option" where
  "unsigned_decimal u =
     (let ip = takeWhile is_digit u;
          r1 = dropWhile is_digit u;
          (fp, r2) = (case r1 of
                        [] \<Rightarrow> ([], [])
                      | c # r \<Rightarrow> if c = CHR ''.'' then (takeWhile is_digit r, dropWhile is_digit r)
                                 else ([], r1));
          ex = (case r2 of
                  [] \<Rightarrow> Some 0
                | c # r \<Rightarrow> if c = CHR ''e'' \<or> c = CHR ''E'' then signed_digits r else None)
      in if ip = [] \<and> fp = [] then None
         else (case ex of
                 None \<Rightarrow> None
               | Some e \<Rightarrow>
                   Some (scale10 (of_nat (case digits_value 10 ip of None \<Rightarrow> 0 | Some n \<Rightarrow> n)
                          + of_nat (case digits_value 10 fp of None \<Rightarrow> 0 | Some n \<Rightarrow> n)
                              / 10 ^ length fp) e)))"

definition Number_str :: "string \<Rightarrow> number" where
  "Number_str s =
     (let t = trim s in
      if t = [] then Fin 0
      else if take 2 t \<in> set [''0x'', ''0X''] then
        (case digits_value 16 (drop 2 t) of None \<Rightarrow> NaN | Some n \<Rightarrow> Fin (of_nat n))
      else if take 2 t \<in> set [''0o'', ''0O''] then
        (case digits_value 8 (drop 2 t) of None \<Rightarrow> NaN | Some n \<Rightarrow> Fin (of_nat n))
      else if take 2 t \<in> set [''0b'', ''0B''] then
        (case digits_value 2 (drop 2 t) of None \<Rightarrow> NaN | Some n \<Rightarrow> Fin (of_nat n))
      else if t = ''Infinity'' \<or> t = ''+Infinity'' then PosInf
      else if t = ''-Infinity'' then NegInf
      else (case t of
              [] \<Rightarrow> NaN
            | c # r \<Rightarrow>
                if c = CHR ''+'' then
                  (case unsigned_decimal r of None \<Rightarrow> NaN | Some q \<Rightarrow> Fin q)
                else if c = CHR ''-'' then
                  (case unsigned_decimal r of None \<Rightarrow> NaN | Some q \<Rightarrow> Fin (- q))
                else (case unsigned_decimal t of None \<Rightarrow> NaN | Some q \<Rightarrow> Fin q)))"

subsection \<open>Arithmetic on numbers\<close>

text \<open>\<open>xs[0]\<close> used as a number: \<open>undefined\<close>, read from an empty array, counts as \<open>NaN\<close>.\<close>

fun at0 :: "number list \<Rightarrow> number" where
  "at0 [] = NaN"
| "at0 (x # xs) = x"

fun num_sub :: "number \<Rightarrow> number \<Rightarrow> number" where
  "num_sub (Fin p) (Fin q) = Fin (p - q)"
| "num_sub NaN b = NaN"
| "num_sub a NaN = NaN"
| "num_sub PosInf PosInf = NaN"
| "num_sub NegInf NegInf = NaN"
| "num_sub PosInf b = PosInf"
| "num_sub NegInf b = NegInf"
| "num_sub a PosInf = NegInf"
| "num_sub a NegInf = PosInf"

text \<open>\<open>Math.sign\<close>\<close>

fun sign :: "number \<Rightarrow> number" where
  "sign NaN = NaN"
| "sign PosInf = Fin 1"
| "sign NegInf = Fin (- 1)"
| "sign (Fin q) = Fin (sgn q)"

text \<open>The values that count as false in \<open>a || b\<close>.\<close>

fun falsy :: "number \<Rightarrow> bool" where
  "falsy NaN = True"
| "falsy (Fin q) = (q = 0)"
| "falsy n = False"

text \<open>
  \<open>array.sort(cmp)\<close>: the sort is stable and, for a comparator that is a consistent
  ordering, its result does not depend on the algorithm; it is modelled by insertion
  from the right, an element moving past those the comparator puts before it
  (\<open>cmp x y > 0\<close>; a \<open>NaN\<close> result counts as \<open>0\<close>).
\<close>

fun insert_by :: "('a \<Rightarrow> 'a \<Rightarrow> number) \<Rightarrow> 'a \<Rightarrow> 'a list \<Rightarrow> 'a list" where
  "insert_by cmp x [] = [x]"
| "insert_by cmp x (y # ys) = (if gt0 (cmp x y) then y # insert_by cmp x ys else x # y # ys)"

definition sort_by :: "('a \<Rightarrow> 'a \<Rightarrow> number) \<Rightarrow> 'a list \<Rightarrow> 'a list" where
  "sort_by cmp xs = foldr (insert_by cmp) xs []"

section \<open>The scheduler\<close>

text \<open>
  A generator is modelled by the events of a run that the consumer drains: the worker
  invocations, the results the race delivers, the values handed to the consumer and the
  way the run ends. A consumer that stops pulling observes a prefix of these events.
  A run that waits for ever on a race no promise of which settles has no end event.
\<close>

datatype ('x, 'y) event =
    Invoke nat 'x
  | Settle nat 'y
  | Yield 'y
  | Throw string
  | Return

text \<open>
  \<open>takeFromIter(it, n)\<close>: the iterator is the list of the items not drawn yet; the
  result is the array \<open>res\<close> and the iterator after the call.
\<close>

fun take_loop :: "'x list \<Rightarrow> number \<Rightarrow> 'x list \<Rightarrow> 'x list \<times> 'x list" where
  "take_loop [] n res = (res, [])"
| "take_loop (x # it) n res =
     (if gt0 n then take_loop it (dec n) (res @ [x]) else (res, x # it))"

definition takeFromIter :: "'x list \<Rightarrow> number \<Rightarrow> 'x list \<times> 'x list" where
  "takeFromIter it n = take_loop it n []"

text \<open>
  \<open>await Promise.race(promises.values())\<close>: the promise that settles first is one of
  the entries that settle at all; which one is the environment's choice, given as the
  head of a schedule (position among the settling entries, in map order, modulo their
  number; the first one when the schedule is used up). The promise stored under slot \<open>i\<close>
  resolves to the pair tagged \<open>i\<close>, so the winner is returned with its key.
\<close>

definition race :: "nat list \<Rightarrow> ('k \<times> 'v promise) list \<Rightarrow> ('k \<times> 'v promise) option" where
  "race sched ps =
     (let settling = filter (\<lambda>(i, p). p \<noteq> Pending) ps
      in if settling = [] then None
         else Some (settling ! ((case sched of [] \<Rightarrow> 0 | c # _ \<Rightarrow> c) mod length settling)))"

lemma race_mem: "race sched ps = Some e \<Longrightarrow> e \<in> set ps"
proof -
  assume r: "race sched ps = Some e"
  define settling where "settling = filter (\<lambda>(i, p). p \<noteq> Pending) ps"
  from r have ne: "settling \<noteq> []"
    by (auto simp: race_def settling_def Let_def split: if_splits)
  with r have "e = settling ! ((case sched of [] \<Rightarrow> 0 | c # _ \<Rightarrow> c) mod length settling)"
    by (auto simp: race_def settling_def Let_def split: if_splits)
  with ne have "e \<in> set settling" by simp
  then show ?thesis by (simp add: settling_def)
qed

lemma map_entries_simps [simp]:
  "map_entries [] = []"
  "map_entries (None # m) = map_entries m"
  "map_entries (Some e # m) = e # map_entries m"
  by (simp_all add: map_entries_def List.map_filter_simps)

lemma map_size_delete:
  "(k, v) \<in> set (map_entries m) \<Longrightarrow> Suc (map_size (map_delete k m)) = map_size m"
  by (induction k m rule: map_delete.induct) (auto simp: map_size_def)

lemma map_size_delete_le: "map_size (map_delete k m) \<le> map_size m"
  by (induction k m rule: map_delete.induct) (auto simp: map_size_def)

lemma map_size_set_le: "map_size (map_set k v m) \<le> Suc (map_size m)"
  by (induction k v m rule: map_set.induct) (auto simp: map_size_def)

text \<open>
  The \<open>while (promises.size > 0)\<close> loop of \<open>mapConcurrently\<close>. A race delivers a
  fulfilled promise, whose slot is deleted, its value yielded and the slot refilled from
  the iterator, or a rejected one, which the \<open>await\<close> throws; with no promise that
  settles the run stops there for ever (a race never delivers a pending promise).
\<close>

function mc_loop ::
  "nat list \<Rightarrow> ('x \<Rightarrow> 'y promise) \<Rightarrow> 'x list \<Rightarrow> (nat, 'y promise) jsmap \<Rightarrow> ('x, 'y) event list"
where
  "mc_loop sched f it promises =
     (if map_size promises > 0 then
        (case race sched (map_entries promises) of
           None \<Rightarrow> []
         | Some (i, Pending) \<Rightarrow> []
         | Some (i, Rejected e) \<Rightarrow> [Throw e]
         | Some (i, Fulfilled y) \<Rightarrow>
             Settle i y # Yield y #
               (case it of
                  [] \<Rightarrow> mc_loop (tl sched) f [] (map_delete i promises)
                | x # it' \<Rightarrow>
                    Invoke i x # mc_loop (tl sched) f it' (map_set i (f x) (map_delete i promises))))
      else [Return])"
  by pat_completeness auto
termination
proof (relation "measure (\<lambda>(sched, f, it, promises). length it + map_size promises)", goal_cases)
  case 1
  show ?case by simp
next
  case (2 sched f it promises e i p y)
  then have "(i, Fulfilled y) \<in> set (map_entries promises)"
    by (auto dest: race_mem)
  from map_size_delete [OF this] show ?case by simp
next
  case (3 sched f it promises e i p y x it')
  then have "(i, Fulfilled y) \<in> set (map_entries promises)"
    by (auto dest: race_mem)
  from map_size_delete [OF this]
    map_size_set_le [of i "f x" "map_delete i promises"] 3(5)
  show ?case by simp
qed

declare mc_loop.simps [simp del]

definition mapConcurrently ::
  "nat list \<Rightarrow> 'x list \<Rightarrow> number \<Rightarrow> ('x \<Rightarrow> 'y promise) \<Rightarrow> ('x, 'y) event list"
where
  "mapConcurrently sched xs n f =
     (let (batch, it) = takeFromIter xs n;
          promises = new_Map (entries (map f batch))
      in map (\<lambda>(i, x). Invoke i x) (entries batch) @ mc_loop sched f it promises)"

text \<open>
  \<open>raceAll\<close> iterates over the map with \<open>for (const _ of promises)\<close> while its body
  deletes entries. The iterator is an index into the entry list: each turn of the loop
  moves it to the next entry that has not been emptied, and the loop ends when there
  is none.
\<close>

definition next_entry :: "nat \<Rightarrow> ('k, 'v) jsmap \<Rightarrow> nat option" where
  "next_entry index m = List.find (\<lambda>p. m ! p \<noteq> None) [index..<length m]"

lemma next_entry_bounds: "next_entry index m = Some p \<Longrightarrow> index \<le> p \<and> p < length m"
  by (auto simp: next_entry_def find_Some_iff)

lemma length_map_delete [simp]: "length (map_delete k m) = length m"
  by (induction k m rule: map_delete.induct) auto

function ra_loop :: "nat list \<Rightarrow> nat \<Rightarrow> (nat, 'y promise) jsmap \<Rightarrow> (unit, 'y) event list" where
  "ra_loop sched index promises =
     (case next_entry index promises of
        None \<Rightarrow> [Return]
      | Some p \<Rightarrow>
          (case race sched (map_entries promises) of
             None \<Rightarrow> []
           | Some (i, Pending) \<Rightarrow> []
           | Some (i, Rejected e) \<Rightarrow> [Throw e]
           | Some (i, Fulfilled y) \<Rightarrow>
               Settle i y # Yield y # ra_loop (tl sched) (Suc p) (map_delete i promises)))"
  by pat_completeness auto
termination
  by (relation "measure (\<lambda>(sched, index, promises). length promises - index)")
     (auto dest!: next_entry_bounds)

declare ra_loop.simps [simp del]

text \<open>\<open>raceAll(aIt)\<close> for the promises \<open>aIt\<close>, given by their eventual states.\<close>

definition raceAll :: "nat list \<Rightarrow> 'y promise list \<Rightarrow> (unit, 'y) event list" where
  "raceAll sched aIt = ra_loop sched 0 (new_Map (entries aIt))"

section \<open>Comparing addresses\<close>

function arrayCompare :: "number list \<Rightarrow> number list \<Rightarrow> number" where
  "arrayCompare as bs =
     (let res = sign (num_sub (at0 as) (at0 bs))
      in if res = Fin 0 \<and> length as > 1 then arrayCompare (tl as) (tl bs) else res)"
  by pat_completeness auto
termination
  by (relation "measure (\<lambda>(as, bs). length as)") auto

declare arrayCompare.simps [simp del]

definition parseIPv4 :: "string \<Rightarrow> number list" where
  "parseIPv4 ip = map Number_str (split_on CHR ''.'' ip)"

section \<open>The probe\<close>

text \<open>
  \<open>ping\<close> creates a socket and registers \<open>close\<close>, which destroys the socket and
  resolves the promise with the address, as a one-time listener for the socket's
  \<open>timeout\<close>, \<open>connect\<close> and \<open>error\<close> events. A promise that is settled ignores later
  calls of \<open>resolve\<close>. The run of a probe is the sequence of events its socket emits.
\<close>

datatype socket_event = Connected | Errored | TimedOut

fun resolve :: "'a \<Rightarrow> 'a promise \<Rightarrow> 'a promise" where
  "resolve v Pending = Fulfilled v"
| "resolve v p = p"

record ping_state =
  destroyed :: bool
  result :: "string promise"
  listeners :: "socket_event list"

definition close :: "string \<Rightarrow> ping_state \<Rightarrow> ping_state" where
  "close address st = st\<lparr>destroyed := True, result := resolve address (result st)\<rparr>"

definition emit :: "string \<Rightarrow> socket_event \<Rightarrow> ping_state \<Rightarrow> ping_state" where
  "emit address ev st =
     (if ev \<in> set (listeners st)
      then close address (st\<lparr>listeners := remove1 ev (listeners st)\<rparr>)
      else st)"

definition ping_run :: "string \<Rightarrow> socket_event list \<Rightarrow> ping_state" where
  "ping_run address evs =
     fold (emit address) evs
       \<lparr>destroyed = False, result = Pending, listeners = [TimedOut, Connected, Errored]\<rparr>"

definition ping :: "string \<Rightarrow> socket_event list \<Rightarrow> string promise" where
  "ping address evs = result (ping_run address evs)"

text \<open>
  The network decides, for each address, which event a probe's socket emits first
  (with nothing else, the timer emits \<open>timeout\<close>) and which events follow.
\<close>

type_synonym network = "string \<Rightarrow> socket_event \<times> socket_event list"

definition ping_on :: "network \<Rightarrow> string \<Rightarrow> string promise" where
  "ping_on net address = (case net address of (first, later) \<Rightarrow> ping address (first # later))"

section \<open>The scan session and the three operations\<close>

record device =
  ip :: string
  mac :: string
  flag :: "string option"
  iface :: "string option"
  ifname :: "string option"

text \<open>
  \<open>MAX_CONCURRENT = Number(process.env.LOCAL_DEVICES_MAX_CONCURRENT) || 32\<close>, as a
  function of the setting: \<open>None\<close> when it is unset, and \<open>Number(undefined)\<close> is \<open>NaN\<close>.
\<close>

definition MAX_CONCURRENT :: "string option \<Rightarrow> number" where
  "MAX_CONCURRENT v =
     (let n = (case v of None \<Rightarrow> NaN | Some s \<Rightarrow> Number_str s)
      in if falsy n then Fin 32 else n)"

text \<open>
  The events of a drained \<open>scan\<close>: the probes started, the devices handed to the
  consumer, and the end of the run. The neighbour-table lookup is a parameter; it is
  asked once for each host the scheduler yields, and a result that is not an array
  (\<open>None\<close>) is replaced by the empty one; \<open>found\<close> is what the inner loop of \<open>scan\<close>
  yields for one host. A lookup that rejects ends the scan at that host; up to there
  the run is the one modelled.
\<close>

datatype scan_event = Probe string | Emit device | Failed string | Done

definition found ::
  "(string \<Rightarrow> device list option) \<Rightarrow> string jsset \<Rightarrow> string \<Rightarrow> device list"
where
  "found ipLookup ipSet host =
     filter (\<lambda>device. has ipSet (ip device))
       (case ipLookup host of None \<Rightarrow> [] | Some ds \<Rightarrow> ds)"

fun scan_for ::
  "(string \<Rightarrow> device list option) \<Rightarrow> string jsset \<Rightarrow> (string, string) event list
     \<Rightarrow> scan_event list"
where
  "scan_for ipLookup ipSet [] = []"
| "scan_for ipLookup ipSet (Invoke i address # es) = Probe address # scan_for ipLookup ipSet es"
| "scan_for ipLookup ipSet (Settle i host # es) = scan_for ipLookup ipSet es"
| "scan_for ipLookup ipSet (Yield host # es) =
     map Emit (found ipLookup ipSet host) @ scan_for ipLookup ipSet es"
| "scan_for ipLookup ipSet (Throw e # es) = [Failed e]"
| "scan_for ipLookup ipSet (Return # es) = [Done]"

definition scan ::
  "string option \<Rightarrow> nat list \<Rightarrow> network \<Rightarrow> (string \<Rightarrow> device list option) \<Rightarrow> string jsset
     \<Rightarrow> scan_event list"
where
  "scan env sched net ipLookup ipSet =
     scan_for ipLookup ipSet (mapConcurrently sched ipSet (MAX_CONCURRENT env) (ping_on net))"

text \<open>
  The \<open>for await\<close> loop of \<open>findLocalDevice\<close> over a scan: it returns at the first
  device that matches, which stops the scan there. The result is the promise the
  function returns together with the scan events that took place.
\<close>

fun search :: "string \<Rightarrow> scan_event list \<Rightarrow> device option promise \<times> scan_event list" where
  "search macOrIP [] = (Pending, [])"
| "search macOrIP (Emit device # es) =
     (if toHex (mac device) = toHex macOrIP \<or> ip device = macOrIP
      then (Fulfilled (Some device), [Emit device])
      else (case search macOrIP es of (r, t) \<Rightarrow> (r, Emit device # t)))"
| "search macOrIP (Failed e # es) = (Rejected e, [Failed e])"
| "search macOrIP (Done # es) = (Fulfilled None, [Done])"
| "search macOrIP (Probe a # es) = (case search macOrIP es of (r, t) \<Rightarrow> (r, Probe a # t))"

text \<open>
  \<open>findLocalDevice\<close> and \<open>getLocalDeviceList\<close> take the IP set that
  \<open>makeIPSetWithDefault\<close> builds from their range arguments, and the array that
  \<open>arpTable()\<close> resolves to.
\<close>

definition findLocalDevice ::
  "string option \<Rightarrow> nat list \<Rightarrow> network \<Rightarrow> (string \<Rightarrow> device list option) \<Rightarrow> device list
     \<Rightarrow> string \<Rightarrow> string jsset \<Rightarrow> device option promise \<times> scan_event list"
where
  "findLocalDevice env sched net ipLookup table macOrIP ipSet =
     (let macHex = toHex macOrIP in
      case List.find (\<lambda>device. toHex (mac device) = macHex \<or> ip device = macOrIP)
             (filter (\<lambda>device. has ipSet (ip device)) table) of
        Some device \<Rightarrow> (Fulfilled (Some device), [])
      | None \<Rightarrow> search macOrIP (scan env sched net ipLookup ipSet))"

text \<open>The loop \<open>for await (const _ of mapConcurrently(...)) {}\<close>.\<close>

fun drain :: "(string, string) event list \<Rightarrow> unit promise \<times> scan_event list" where
  "drain [] = (Pending, [])"
| "drain (Invoke i address # es) = (case drain es of (r, t) \<Rightarrow> (r, Probe address # t))"
| "drain (Throw e # es) = (Rejected e, [Failed e])"
| "drain (Return # es) = (Fulfilled (), [Done])"
| "drain (e # es) = drain es"

definition getLocalDeviceList ::
  "string option \<Rightarrow> nat list \<Rightarrow> network \<Rightarrow> device list \<Rightarrow> string jsset
     \<Rightarrow> device list promise \<times> scan_event list"
where
  "getLocalDeviceList env sched net table ipSet =
     (case drain (mapConcurrently sched ipSet (MAX_CONCURRENT env) (ping_on net)) of
        (Fulfilled u, t) \<Rightarrow>
          (Fulfilled (sort_by (\<lambda>a b. arrayCompare (parseIPv4 (ip a)) (parseIPv4 (ip b)))
                        (filter (\<lambda>device. has ipSet (ip device)) table)), t)
      | (Rejected e, t) \<Rightarrow> (Rejected e, t)
      | (Pending, t) \<Rightarrow> (Pending, t))"

section \<open>Notions used to state the properties\<close>

text \<open>
  The values a run hands to its consumer, the items its worker is invoked on, both in
  order and up to the end of the run, and the way the run ends: \<open>Pending\<close> for a run
  that waits for ever.
\<close>

fun yields :: "('x, 'y) event list \<Rightarrow> 'y list" where
  "yields [] = []"
| "yields (Yield y # es) = y # yields es"
| "yields (Return # es) = []"
| "yields (Throw e # es) = []"
| "yields (e # es) = yields es"

fun invoked :: "('x, 'y) event list \<Rightarrow> 'x list" where
  "invoked [] = []"
| "invoked (Invoke i x # es) = x # invoked es"
| "invoked (Return # es) = []"
| "invoked (Throw e # es) = []"
| "invoked (e # es) = invoked es"

fun outcome :: "('x, 'y) event list \<Rightarrow> unit promise" where
  "outcome [] = Pending"
| "outcome (Return # es) = Fulfilled ()"
| "outcome (Throw e # es) = Rejected e"
| "outcome (e # es) = outcome es"

text \<open>The addresses probed and the devices emitted during a scan, in order.\<close>

fun probes :: "scan_event list \<Rightarrow> string list" where
  "probes [] = []"
| "probes (Probe a # es) = a # probes es"
| "probes (e # es) = probes es"

fun emitted :: "scan_event list \<Rightarrow> device list" where
  "emitted [] = []"
| "emitted (Emit d # es) = d # emitted es"
| "emitted (e # es) = emitted es"

text \<open>
  The normal form of a MAC address in the words of the specification: the characters
  that are not hexadecimal digits removed, the rest in lower case.
\<close>

definition is_hex_digit :: "char \<Rightarrow> bool" where
  "is_hex_digit c = (c \<in> set ''0123456789abcdefABCDEF'')"

definition normalize_mac :: "string \<Rightarrow> string" where
  "normalize_mac m = toLowerCase (filter is_hex_digit m)"

text \<open>
  The canonical order of IP addresses in the words of the specification: an address is
  a dotted quad, four decimal octets of value at most 255, and addresses compare by
  their octets as numbers, the first octet that differs deciding.
\<close>

definition digit_val :: "char \<Rightarrow> nat" where
  "digit_val c = (case digit_of c of None \<Rightarrow> 0 | Some d \<Rightarrow> d)"

definition dec_value :: "string \<Rightarrow> nat" where
  "dec_value s = fold (\<lambda>c n. n * 10 + digit_val c) s 0"

definition is_ipv4 :: "string \<Rightarrow> bool" where
  "is_ipv4 a =
     (length (split_on CHR ''.'' a) = 4 \<and>
      list_all (\<lambda>p. p \<noteq> [] \<and> list_all is_digit p \<and> dec_value p \<le> 255) (split_on CHR ''.'' a))"

definition ipv4_octets :: "string \<Rightarrow> nat list" where
  "ipv4_octets a = map dec_value (split_on CHR ''.'' a)"

fun octets_le :: "nat list \<Rightarrow> nat list \<Rightarrow> bool" where
  "octets_le [] ys = True"
| "octets_le (x # xs) [] = False"
| "octets_le (x # xs) (y # ys) = (x < y \<or> (x = y \<and> octets_le xs ys))"

text \<open>A table entry with the two fields that are always present.\<close>

definition dev :: "string \<Rightarrow> string \<Rightarrow> device" where
  "dev i m = \<lparr>ip = i, mac = m, flag = None, iface = None, ifname = None\<rparr>"

text \<open>
  Environments for the examples: a network on which every probe times out, a lookup
  that knows no host, a lookup that returns the host on two interfaces, and a lookup
  that knows the one host \<open>10.0.0.7\<close>.
\<close>

definition quiet :: network where
  "quiet address = (TimedOut, [])"

definition no_entries :: "string \<Rightarrow> device list option" where
  "no_entries host = None"

definition one_host :: "string \<Rightarrow> device list option" where
  "one_host host = (if host = ''10.0.0.7'' then Some [dev host ''aabbccddeeff''] else Some [])"

definition two_interfaces :: "string \<Rightarrow> device list option" where
  "two_interfaces host =
     Some [\<lparr>ip = host, mac = ''aa:bb:cc:dd:ee:ff'', flag = None, iface = Some ''en0'',
             ifname = None\<rparr>,
           \<lparr>ip = host, mac = ''aa:bb:cc:dd:ee:ff'', flag = None, iface = Some ''en1'',
             ifname = None\<rparr>]"

text \<open>
  The worker invocations outstanding after a sequence of events: those started whose
  value no race has delivered yet.
\<close>

fun delta :: "('x, 'y) event \<Rightarrow> int" where
  "delta (Invoke i x) = 1"
| "delta (Settle i y) = - 1"
| "delta e = 0"

definition outstanding :: "('x, 'y) event list \<Rightarrow> int" where
  "outstanding es = sum_list (map delta es)"

text \<open>
  The number of items a limit \<open>n\<close> lets \<open>takeFromIter\<close> draw from \<open>N\<close> available
  ones: the countdown \<open>n-- > 0\<close> succeeds \<open>\<lceil>n\<rceil>\<close> times for a positive finite \<open>n\<close>.
\<close>

fun window :: "number \<Rightarrow> nat \<Rightarrow> nat" where
  "window NaN N = 0"
| "window NegInf N = 0"
| "window PosInf N = N"
| "window (Fin q) N = min N (nat \<lceil>q\<rceil>)"

section \<open>Properties of the scheduler\<close>

lemma outstanding_simps [simp]:
  "outstanding [] = 0"
  "outstanding (e # es) = delta e + outstanding es"
  "outstanding (es @ es') = outstanding es + outstanding es'"
  by (simp_all add: outstanding_def)

lemma take_loop_window:
  "take_loop it n res = (res @ take (window n (length it)) it, drop (window n (length it)) it)"
proof (induction it arbitrary: n res)
  case Nil
  show ?case by simp
next
  case (Cons x it)
  show ?case
  proof (cases n)
    case (Fin q)
    show ?thesis
    proof (cases "0 < q")
      case True
      then have "nat \<lceil>q\<rceil> = Suc (nat \<lceil>q - 1\<rceil>)" by linarith
      with True Fin Cons.IH [of "dec n" "res @ [x]"] show ?thesis by simp
    next
      case False
      then have "nat \<lceil>q\<rceil> = 0" by linarith
      with False Fin show ?thesis by simp
    qed
  qed (simp_all add: Cons.IH)
qed

lemma takeFromIter_window:
  "takeFromIter xs n = (take (window n (length xs)) xs, drop (window n (length xs)) xs)"
  by (simp add: takeFromIter_def take_loop_window)


lemma length_entries [simp]: "length (entries xs) = length xs"
  by (simp add: entries_def)





text \<open>
  A limit that is not a whole number is rounded up by the countdown of \<open>takeFromIter\<close>:
  with the limit \<open>3/2\<close> both items of a two-item input are in flight after the first
  two events.
\<close>

lemma mapConcurrently_fractional_limit:
  "num_le (Fin 1) (Fin (3 / 2)) \<and>
   \<not> num_le (Fin (of_int (outstanding
        (take 2 (mapConcurrently [] [''a'', ''b''] (Fin (3 / 2)) Fulfilled))))) (Fin (3 / 2))"
  by (simp add: mapConcurrently_def takeFromIter_def entries_def new_Map_def Let_def)

subsection \<open>Runs with a worker that always fulfils\<close>

lemma mapConcurrently_closed: "\<not> gt0 n \<Longrightarrow> mapConcurrently sched xs n f = [Return]"
  by (cases xs) (simp_all add: mapConcurrently_def takeFromIter_def entries_def new_Map_def
      mc_loop.simps map_size_def)

lemma map_entries_delete:
  "distinct (map fst (map_entries m)) \<Longrightarrow>
   map_entries (map_delete k m) = filter (\<lambda>e. fst e \<noteq> k) (map_entries m)"
proof (induction k m rule: map_delete.induct)
  case (3 k k' v m)
  show ?case
  proof (cases "k' = k")
    case True
    with "3.prems" have "\<forall>e \<in> set (map_entries m). fst e \<noteq> k" by auto
    then have "filter (\<lambda>e. fst e \<noteq> k) (map_entries m) = map_entries m"
      by (simp add: filter_id_conv)
    with True show ?thesis by simp
  next
    case False
    with 3 show ?thesis by simp
  qed
qed simp_all

lemma map_entries_set:
  "k \<notin> fst ` set (map_entries m) \<Longrightarrow> map_entries (map_set k v m) = map_entries m @ [(k, v)]"
  by (induction k v m rule: map_set.induct) auto

lemma map_set_Some:
  "k \<notin> fst ` set kvs \<Longrightarrow> map_set k v (map Some kvs) = map Some (kvs @ [(k, v)])"
  by (induction kvs) auto

lemma fold_map_set:
  "distinct (map fst (ys @ kvs)) \<Longrightarrow>
   fold (\<lambda>(k, v) m. map_set k v m) kvs (map Some ys) = map Some (ys @ kvs)"
proof (induction kvs arbitrary: ys)
  case Nil
  show ?case by simp
next
  case (Cons kv kvs)
  obtain k v where kv: "kv = (k, v)" by (cases kv)
  from Cons.prems kv have "k \<notin> fst ` set ys" by auto
  then have "map_set k v (map Some ys) = map Some (ys @ [(k, v)])" by (rule map_set_Some)
  moreover from Cons.prems kv have "distinct (map fst ((ys @ [(k, v)]) @ kvs))" by simp
  ultimately show ?case using Cons.IH [of "ys @ [(k, v)]"] kv by simp
qed

lemma map_entries_Some [simp]: "map_entries (map Some kvs) = kvs"
  by (induction kvs) auto

lemma map_fst_entries [simp]: "map fst (entries xs) = [0..<length xs]"
  by (simp add: entries_def)

lemma map_entries_new_Map: "distinct (map fst kvs) \<Longrightarrow> map_entries (new_Map kvs) = kvs"
  using fold_map_set [of "[]" kvs] by (simp add: new_Map_def)

lemma race_all_settling:
  assumes "ps \<noteq> []" and "\<forall>e \<in> set ps. snd e \<noteq> Pending"
  shows "\<exists>e \<in> set ps. race sched ps = Some e"
proof -
  from assms(2) have "filter (\<lambda>(i, p). p \<noteq> Pending) ps = ps"
    by (auto simp: filter_id_conv)
  with assms(1) show ?thesis
    by (simp add: race_def Let_def)
qed

lemma mc_step:
  assumes inv: "map_entries m = map (apsnd Fulfilled) kys"
    and dist: "distinct (map fst kys)" and ne: "kys \<noteq> []"
  shows "\<exists>i y. (i, y) \<in> set kys \<and>
    mc_loop sched (\<lambda>x. Fulfilled (g x)) it m =
      Settle i y # Yield y #
        (case it of
           [] \<Rightarrow> mc_loop (tl sched) (\<lambda>x. Fulfilled (g x)) [] (map_delete i m)
         | x # it' \<Rightarrow> Invoke i x #
             mc_loop (tl sched) (\<lambda>x. Fulfilled (g x)) it'
               (map_set i (Fulfilled (g x)) (map_delete i m))) \<and>
    map_entries (map_delete i m) = map (apsnd Fulfilled) (filter (\<lambda>e. fst e \<noteq> i) kys) \<and>
    (\<forall>v. map_entries (map_set i (Fulfilled v) (map_delete i m))
        = map (apsnd Fulfilled) (filter (\<lambda>e. fst e \<noteq> i) kys @ [(i, v)]))"
proof -
  have size: "map_size m > 0" using inv ne by (simp add: map_size_def)
  have "\<exists>e \<in> set (map_entries m). race sched (map_entries m) = Some e"
    using inv ne by (intro race_all_settling) auto
  then obtain i y where iy: "(i, y) \<in> set kys"
    and r: "race sched (map_entries m) = Some (i, Fulfilled y)"
    using inv by auto
  have dm: "distinct (map fst (map_entries m))"
    using inv dist by (simp add: o_def)
  have del: "map_entries (map_delete i m) = map (apsnd Fulfilled) (filter (\<lambda>e. fst e \<noteq> i) kys)"
    using map_entries_delete [OF dm, of i] inv by (simp add: filter_map o_def)
  then have "i \<notin> fst ` set (map_entries (map_delete i m))" by auto
  from map_entries_set [OF this] del
  have set: "\<And>v. map_entries (map_set i (Fulfilled v) (map_delete i m))
        = map (apsnd Fulfilled) (filter (\<lambda>e. fst e \<noteq> i) kys @ [(i, v)])"
    by simp
  have "mc_loop sched (\<lambda>x. Fulfilled (g x)) it m =
      Settle i y # Yield y #
        (case it of
           [] \<Rightarrow> mc_loop (tl sched) (\<lambda>x. Fulfilled (g x)) [] (map_delete i m)
         | x # it' \<Rightarrow> Invoke i x #
             mc_loop (tl sched) (\<lambda>x. Fulfilled (g x)) it'
               (map_set i (Fulfilled (g x)) (map_delete i m)))"
    using size r by (subst mc_loop.simps) (simp split: list.split)
  with iy del set show ?thesis by blast
qed

lemma mset_remove_key:
  "distinct (map fst kys) \<Longrightarrow> (i, y) \<in> set kys \<Longrightarrow>
   mset (map snd (filter (\<lambda>e. fst e \<noteq> i) kys)) + {#y#} = mset (map snd kys)"
proof (induction kys)
  case Nil
  then show ?case by simp
next
  case (Cons a kys)
  show ?case
  proof (cases "fst a = i")
    case True
    with Cons.prems have "a = (i, y)" by (cases a) (auto simp: rev_image_eqI)
    moreover from True Cons.prems have "filter (\<lambda>e. fst e \<noteq> i) kys = kys"
      by (auto simp: filter_id_conv rev_image_eqI)
    ultimately show ?thesis by simp
  next
    case False
    with Cons show ?thesis by auto
  qed
qed

lemma length_remove_key:
  "distinct (map fst kys) \<Longrightarrow> (i, y) \<in> set kys \<Longrightarrow>
   Suc (length (filter (\<lambda>e. fst e \<noteq> i) kys)) = length kys"
proof (induction kys)
  case Nil
  then show ?case by simp
next
  case (Cons a kys)
  show ?case
  proof (cases "fst a = i")
    case True
    with Cons.prems have "filter (\<lambda>e. fst e \<noteq> i) kys = kys"
      by (auto simp: filter_id_conv rev_image_eqI)
    with True show ?thesis by simp
  next
    case False
    with Cons show ?thesis by auto
  qed
qed

lemma mc_loop_fulfilled:
  assumes "map_entries m = map (apsnd Fulfilled) kys" and "distinct (map fst kys)"
  shows "invoked (mc_loop sched (\<lambda>x. Fulfilled (g x)) it m) = (if kys = [] then [] else it) \<and>
         mset (yields (mc_loop sched (\<lambda>x. Fulfilled (g x)) it m))
           = (if kys = [] then {#} else mset (map snd kys) + mset (map g it)) \<and>
         outcome (mc_loop sched (\<lambda>x. Fulfilled (g x)) it m) = Fulfilled ()"
  using assms
proof (induction "length it + length kys" arbitrary: it kys m sched rule: less_induct)
  case less
  show ?case
  proof (cases "kys = []")
    case True
    with less.prems have "map_size m = 0" by (simp add: map_size_def)
    then have "mc_loop sched (\<lambda>x. Fulfilled (g x)) it m = [Return]"
      by (subst mc_loop.simps) simp
    with True show ?thesis by simp
  next
    case False
    from mc_step [OF less.prems False, of sched g it]
    obtain i y where iy: "(i, y) \<in> set kys"
      and eq: "mc_loop sched (\<lambda>x. Fulfilled (g x)) it m =
        Settle i y # Yield y #
          (case it of
             [] \<Rightarrow> mc_loop (tl sched) (\<lambda>x. Fulfilled (g x)) [] (map_delete i m)
           | x # it' \<Rightarrow> Invoke i x #
               mc_loop (tl sched) (\<lambda>x. Fulfilled (g x)) it'
                 (map_set i (Fulfilled (g x)) (map_delete i m)))"
      and del: "map_entries (map_delete i m)
          = map (apsnd Fulfilled) (filter (\<lambda>e. fst e \<noteq> i) kys)"
      and set: "\<And>v. map_entries (map_set i (Fulfilled v) (map_delete i m))
          = map (apsnd Fulfilled) (filter (\<lambda>e. fst e \<noteq> i) kys @ [(i, v)])"
      by blast
    define kys' where "kys' = filter (\<lambda>e. fst e \<noteq> i) kys"
    define A where "A = mset (map snd kys')"
    define B where "B = mset (map snd kys)"
    have d': "distinct (map fst kys')"
      using less.prems(2) by (simp add: kys'_def distinct_map_filter)
    have len: "Suc (length kys') = length kys"
      unfolding kys'_def using length_remove_key [OF less.prems(2) iy] .
    have ms: "A + {#y#} = B"
      unfolding A_def B_def kys'_def using mset_remove_key [OF less.prems(2) iy] .
    have A0: "A = {#}" if "kys' = []" using that by (simp add: A_def)
    show ?thesis
    proof (cases it)
      case Nil
      define rest where "rest = mc_loop (tl sched) (\<lambda>x. Fulfilled (g x)) [] (map_delete i m)"
      have "invoked rest = (if kys' = [] then [] else []) \<and>
          mset (yields rest) = (if kys' = [] then {#} else mset (map snd kys') + mset (map g [])) \<and>
          outcome rest = Fulfilled ()"
        unfolding rest_def
        by (rule less.hyps [OF _ del [folded kys'_def] d']) (use len in simp)
      then have r: "invoked rest = []" "mset (yields rest) = A" "outcome rest = Fulfilled ()"
        using A0 by (auto simp: A_def)
      have e: "mc_loop sched (\<lambda>x. Fulfilled (g x)) it m = Settle i y # Yield y # rest"
        using eq Nil by (simp add: rest_def)
      have "mset (yields (mc_loop sched (\<lambda>x. Fulfilled (g x)) it m)) = B"
        unfolding e using r(2) ms by simp
      with r e False Nil show ?thesis by (simp add: B_def)
    next
      case (Cons x it')
      define rest where "rest = mc_loop (tl sched) (\<lambda>x. Fulfilled (g x)) it'
              (map_set i (Fulfilled (g x)) (map_delete i m))"
      have d2: "distinct (map fst (kys' @ [(i, g x)]))"
        using d' by (auto simp: kys'_def)
      have "invoked rest = (if kys' @ [(i, g x)] = [] then [] else it') \<and>
          mset (yields rest) = (if kys' @ [(i, g x)] = [] then {#}
             else mset (map snd (kys' @ [(i, g x)])) + mset (map g it')) \<and>
          outcome rest = Fulfilled ()"
        unfolding rest_def
        by (rule less.hyps [OF _ set [of "g x", folded kys'_def] d2]) (use len Cons in simp)
      then have r: "invoked rest = it'" "mset (yields rest) = A + {#g x#} + mset (map g it')"
        "outcome rest = Fulfilled ()"
        by (auto simp: A_def)
      have e: "mc_loop sched (\<lambda>x. Fulfilled (g x)) it m
          = Settle i y # Yield y # Invoke i x # rest"
        using eq Cons by (simp add: rest_def)
      have "mset (yields (mc_loop sched (\<lambda>x. Fulfilled (g x)) it m))
          = B + mset (map g it)"
        unfolding e using r(2) ms Cons by simp
      with r e False Cons show ?thesis by (simp add: B_def)
    qed
  qed
qed

lemma invoked_invokes:
  "invoked (map (\<lambda>(i, x). Invoke i x) ps @ es) = map snd ps @ invoked es"
  by (induction ps) auto

lemma yields_invokes:
  "yields (map (\<lambda>(i, x). Invoke i x) ps @ es) = yields es"
  by (induction ps) auto

lemma outcome_invokes:
  "outcome (map (\<lambda>(i, x). Invoke i x) ps @ es) = outcome es"
  by (induction ps) auto

lemma map_snd_entries [simp]: "map snd (entries xs) = xs"
  by (simp add: entries_def)

lemma entries_map: "entries (map f xs) = map (apsnd f) (entries xs)"
  by (simp add: entries_def zip_map2 apsnd_def map_prod_def)

lemma gt0_window: "gt0 n \<Longrightarrow> 0 < N \<Longrightarrow> 0 < window n N"
  by (cases n) auto

text \<open>
  With a worker every invocation of which is fulfilled and a limit above zero, a
  drained run invokes the worker on every item, in input order, hands over every
  result exactly once, and returns.
\<close>

lemma mapConcurrently_fulfilled:
  "outcome (mapConcurrently sched xs n (\<lambda>x. Fulfilled (g x))) = Fulfilled () \<and>
   (gt0 n \<longrightarrow> invoked (mapConcurrently sched xs n (\<lambda>x. Fulfilled (g x))) = xs \<and>
      mset (yields (mapConcurrently sched xs n (\<lambda>x. Fulfilled (g x)))) = mset (map g xs))"
proof -
  define w where "w = window n (length xs)"
  define batch where "batch = take w xs"
  define it where "it = drop w xs"
  define kys where "kys = entries (map g batch)"
  define run where "run = mc_loop sched (\<lambda>x. Fulfilled (g x)) it
          (new_Map (entries (map (\<lambda>x. Fulfilled (g x)) batch)))"
  have "entries (map (\<lambda>x. Fulfilled (g x)) batch) = map (apsnd Fulfilled) kys"
    using entries_map [of Fulfilled "map g batch"] by (simp add: kys_def o_def)
  moreover have "distinct (map fst (entries (map (\<lambda>x. Fulfilled (g x)) batch)))"
    by simp
  ultimately have m: "map_entries (new_Map (entries (map (\<lambda>x. Fulfilled (g x)) batch)))
      = map (apsnd Fulfilled) kys"
    by (simp only: map_entries_new_Map)
  have d: "distinct (map fst kys)" by (simp add: kys_def)
  have L: "invoked run = (if kys = [] then [] else it)"
    "mset (yields run) = (if kys = [] then {#} else mset (map snd kys) + mset (map g it))"
    "outcome run = Fulfilled ()"
    using mc_loop_fulfilled [OF m d, of sched g it] by (simp_all add: run_def)
  have eq: "mapConcurrently sched xs n (\<lambda>x. Fulfilled (g x)) =
      map (\<lambda>(i, x). Invoke i x) (entries batch) @ run"
    by (simp add: mapConcurrently_def takeFromIter_window w_def batch_def it_def run_def)
  have kys_empty: "kys = [] \<longleftrightarrow> batch = []"
    by (cases batch) (simp_all add: kys_def entries_def upt_rec)
  have split: "batch @ it = xs" by (simp add: batch_def it_def)
  have out: "outcome (mapConcurrently sched xs n (\<lambda>x. Fulfilled (g x))) = Fulfilled ()"
    using L(3) by (simp add: eq outcome_invokes)
  have inv: "invoked (mapConcurrently sched xs n (\<lambda>x. Fulfilled (g x)))
      = batch @ (if batch = [] then [] else it)"
    using L(1) by (simp add: eq invoked_invokes kys_empty)
  have yl: "mset (yields (mapConcurrently sched xs n (\<lambda>x. Fulfilled (g x))))
      = (if batch = [] then {#} else mset (map g batch) + mset (map g it))"
  proof -
    have "map snd kys = map g batch" by (simp add: kys_def)
    with L(2) show ?thesis by (simp add: eq yields_invokes kys_empty)
  qed
  have "invoked (mapConcurrently sched xs n (\<lambda>x. Fulfilled (g x))) = xs \<and>
      mset (yields (mapConcurrently sched xs n (\<lambda>x. Fulfilled (g x)))) = mset (map g xs)"
    if "gt0 n"
  proof (cases "xs = []")
    case True
    then have "batch = []" by (simp add: batch_def)
    with inv yl True show ?thesis by simp
  next
    case False
    with that have "0 < w" by (simp add: w_def gt0_window)
    with False have ne: "batch \<noteq> []" by (cases xs; cases w) (simp_all add: batch_def)
    have "mset (map g batch) + mset (map g it) = mset (map g xs)"
      using split by (metis map_append mset_append)
    with inv yl ne split show ?thesis by simp
  qed
  with out show ?thesis by blast
qed

section \<open>The unbounded variant\<close>

text \<open>
  C2. With the limit at least the input size, \<open>mapConcurrently\<close> and \<open>raceAll\<close> on the
  same promises should hand over the same results in the same order. On two promises
  of which the second settles first, \<open>mapConcurrently\<close> yields both results, and
  \<open>raceAll\<close> yields the first to settle and returns: deleting the second entry, which
  the map iterator has not reached, ends the \<open>for ... of\<close> loop after one turn.
\<close>

theorem raceAll_drops_results:
  "yields (mapConcurrently [1] [''a'', ''b''] (Fin 2) Fulfilled) = [''b'', ''a''] \<and>
   yields (raceAll [1] (map Fulfilled [''a'', ''b''])) = [''b'']"
  by code_simp

section \<open>Properties of the probe\<close>

lemma emit_result:
  "result st = Fulfilled a \<Longrightarrow> result (emit a ev st) = Fulfilled a"
  by (simp add: emit_def close_def)

lemma fold_emit_result:
  "result st = Fulfilled a \<Longrightarrow> result (fold (emit a) evs st) = Fulfilled a"
  by (induction evs arbitrary: st) (simp_all add: emit_result)

lemma emit_not_rejected:
  "result st \<noteq> Rejected e \<Longrightarrow> result (emit a ev st) \<noteq> Rejected e"
  by (cases "result st") (simp_all add: emit_def close_def)

lemma fold_emit_not_rejected:
  "result st \<noteq> Rejected e \<Longrightarrow> result (fold (emit a) evs st) \<noteq> Rejected e"
  by (induction evs arbitrary: st) (simp_all add: emit_not_rejected)

lemma ping_first_event: "ping address (ev # evs) = Fulfilled address"
proof -
  have "result (emit address ev
      \<lparr>destroyed = False, result = Pending, listeners = [TimedOut, Connected, Errored]\<rparr>)
        = Fulfilled address"
    by (cases ev) (simp_all add: emit_def close_def)
  then show ?thesis
    by (simp add: ping_def ping_run_def fold_emit_result)
qed

lemma ping_on_fulfils [simp]: "ping_on net a = Fulfilled a"
  by (simp add: ping_on_def ping_first_event split: prod.split)

text \<open>
  C3. Whichever of connect, error and timeout the socket emits first, and whatever it
  emits afterwards, the promise \<open>ping\<close> returns is fulfilled with the address it was
  given; before the first event it is pending, and after no sequence of events at all
  is it rejected.
\<close>

theorem ping_resolves_to_address:
  "ping address (ev # evs) = Fulfilled address \<and>
   ping address [] = Pending \<and>
   ping address evs' \<noteq> Rejected e"
proof -
  have "ping address evs' \<noteq> Rejected e"
    by (simp add: ping_def ping_run_def fold_emit_not_rejected)
  moreover have "ping address [] = Pending"
    by (simp add: ping_def ping_run_def)
  ultimately show ?thesis by (simp add: ping_first_event)
qed

section \<open>Properties of the scan session\<close>

lemma scan_for_emits:
  "Emit d \<in> set (scan_for lk S es) \<Longrightarrow> has S (ip d)"
  by (induction lk S es rule: scan_for.induct) (auto simp: found_def)

text \<open>
  C5. Whatever the lookup returns, under every schedule and every setting of the
  limit, each device a scan emits has its \<open>ip\<close> in the IP set.
\<close>

theorem scan_emits_members_only:
  "Emit d \<in> set (scan env sched net ipLookup ipSet) \<Longrightarrow> has ipSet (ip d)"
  by (auto simp: scan_def dest: scan_for_emits)

theorem scan_emits_members_only_witness:
  "Emit (dev ''10.0.0.2'' ''aa:bb:cc:dd:ee:ff'')
     \<in> set (scan None [] (\<lambda>a. (TimedOut, []))
         (\<lambda>h. Some [dev ''10.0.0.2'' ''aa:bb:cc:dd:ee:ff'', dev ''10.0.0.200'' ''00:00:00:00:00:01''])
         (new_Set [''10.0.0.1'', ''10.0.0.2''])) \<and>
   has (new_Set [''10.0.0.1'', ''10.0.0.2'']) (ip (dev ''10.0.0.2'' ''aa:bb:cc:dd:ee:ff''))"
proof -
  have h: "Emit (dev ''10.0.0.2'' ''aa:bb:cc:dd:ee:ff'')
     \<in> set (scan None [] (\<lambda>a. (TimedOut, []))
         (\<lambda>h. Some [dev ''10.0.0.2'' ''aa:bb:cc:dd:ee:ff'', dev ''10.0.0.200'' ''00:00:00:00:00:01''])
         (new_Set [''10.0.0.1'', ''10.0.0.2'']))"
    by code_simp
  from scan_emits_members_only [OF h] h show ?thesis by simp
qed

lemma probes_append [simp]: "probes (es @ es') = probes es @ probes es'"
  by (induction es rule: probes.induct) auto

lemma emitted_append [simp]: "emitted (es @ es') = emitted es @ emitted es'"
  by (induction es rule: emitted.induct) auto

lemma probes_Emit [simp]: "probes (map Emit ds) = []"
  by (induction ds) auto

lemma emitted_Emit [simp]: "emitted (map Emit ds) = ds"
  by (induction ds) auto

lemma probes_scan_for: "probes (scan_for lk S es) = invoked es"
  by (induction lk S es rule: scan_for.induct) auto

lemma emitted_scan_for: "emitted (scan_for lk S es) = concat (map (found lk S) (yields es))"
  by (induction lk S es rule: scan_for.induct) (auto simp: found_def)

lemma Done_scan_for: "outcome es = Fulfilled () \<Longrightarrow> Done \<in> set (scan_for lk S es)"
  by (induction lk S es rule: scan_for.induct) auto

lemma set_add_props: "distinct s \<Longrightarrow> distinct (set_add x s) \<and> set (set_add x s) = insert x (set s)"
  by (auto simp: set_add_def)

lemma fold_set_add:
  "distinct s \<Longrightarrow> distinct (fold set_add xs s) \<and> set (fold set_add xs s) = set xs \<union> set s"
proof (induction xs arbitrary: s)
  case Nil
  then show ?case by simp
next
  case (Cons x xs)
  from set_add_props [OF Cons.prems, of x] Cons.IH [of "set_add x s"]
  show ?case by auto
qed

lemma new_Set_props: "distinct (new_Set xs) \<and> set (new_Set xs) = set xs"
  using fold_set_add [of "[]" xs] by (simp add: new_Set_def)


lemma mset_concat_cong:
  "mset ys = mset S \<Longrightarrow> mset (concat (map F ys)) = mset (concat (map F S))"
proof -
  assume a: "mset ys = mset S"
  have "mset (concat (map F ys)) = (\<Sum>h\<in>#mset ys. mset (F h))"
    by (simp add: mset_concat o_def flip: sum_mset_sum_list)
  also have "\<dots> = (\<Sum>h\<in>#mset S. mset (F h))" using a by simp
  also have "\<dots> = mset (concat (map F S))"
    by (simp add: mset_concat o_def flip: sum_mset_sum_list)
  finally show ?thesis .
qed


lemma ping_on_eq: "ping_on net = Fulfilled"
  by (simp add: fun_eq_iff)

lemma scan_run:
  "Done \<in> set (scan env sched net lk S) \<and>
   (gt0 (MAX_CONCURRENT env) \<longrightarrow> probes (scan env sched net lk S) = S \<and>
      mset (map ip (emitted (scan env sched net lk S)))
        = mset (map ip (concat (map (found lk S) S))))"
proof -
  define es where "es = mapConcurrently sched S (MAX_CONCURRENT env) (ping_on net)"
  have M: "outcome es = Fulfilled ()"
    "gt0 (MAX_CONCURRENT env) \<Longrightarrow> invoked es = S"
    "gt0 (MAX_CONCURRENT env) \<Longrightarrow> mset (yields es) = mset S"
    using mapConcurrently_fulfilled [of sched S "MAX_CONCURRENT env" "\<lambda>x. x"]
    by (simp_all add: es_def ping_on_eq)
  have s: "scan env sched net lk S = scan_for lk S es"
    by (simp add: scan_def es_def)
  have "Done \<in> set (scan env sched net lk S)"
    unfolding s using M(1) by (rule Done_scan_for)
  moreover have "probes (scan env sched net lk S) = S" if "gt0 (MAX_CONCURRENT env)"
    unfolding s using M(2) [OF that] by (simp add: probes_scan_for)
  moreover have "mset (map ip (emitted (scan env sched net lk S)))
        = mset (map ip (concat (map (found lk S) S)))" if "gt0 (MAX_CONCURRENT env)"
  proof -
    have "mset (concat (map (found lk S) (yields es))) = mset (concat (map (found lk S) S))"
      using M(3) [OF that] by (rule mset_concat_cong)
    then have "image_mset ip (mset (concat (map (found lk S) (yields es))))
        = image_mset ip (mset (concat (map (found lk S) S)))"
      by (rule arg_cong)
    then show ?thesis
      unfolding s emitted_scan_for by (simp only: mset_map)
  qed
  ultimately show ?thesis by blast
qed

text \<open>
  When the limit in force is above zero, as the default \<open>32\<close> is, a drained scan of an
  IP set probes exactly the addresses of the set, each once and in the order of the
  set, and ends.
\<close>

theorem scan_probes_each_address_once:
  "gt0 (MAX_CONCURRENT env) \<Longrightarrow>
     probes (scan env sched net ipLookup (new_Set addrs)) = new_Set addrs \<and>
     distinct (new_Set addrs) \<and> set (new_Set addrs) = set addrs \<and>
     Done \<in> set (scan env sched net ipLookup (new_Set addrs))"
  using scan_run [of env sched net ipLookup "new_Set addrs"] new_Set_props [of addrs] by simp

theorem scan_probes_each_address_once_witness:
  "gt0 (MAX_CONCURRENT None) \<and>
   probes (scan None [1] (\<lambda>a. (TimedOut, [])) (\<lambda>h. None)
       (new_Set [''10.0.0.1'', ''10.0.0.2'', ''10.0.0.1'', ''10.0.0.3'']))
     = [''10.0.0.1'', ''10.0.0.2'', ''10.0.0.3'']"
proof -
  have h: "gt0 (MAX_CONCURRENT None)" by (simp add: MAX_CONCURRENT_def)
  have "new_Set [''10.0.0.1'', ''10.0.0.2'', ''10.0.0.1'', ''10.0.0.3'']
      = [''10.0.0.1'', ''10.0.0.2'', ''10.0.0.3'']"
    by (simp add: new_Set_def set_add_def)
  with scan_probes_each_address_once [OF h, of "[1]" "\<lambda>a. (TimedOut, [])" "\<lambda>h. None"
      "[''10.0.0.1'', ''10.0.0.2'', ''10.0.0.1'', ''10.0.0.3'']"] h
  show ?thesis by simp
qed

text \<open>
  C4. A drained scan is to probe every address of the IP set exactly once. With the
  setting \<open>-1\<close> the limit is negative, \<open>takeFromIter\<close> draws nothing, and the scan of a
  one-address set ends without a probe.
\<close>

theorem scan_negative_limit_probes_nothing:
  "probes (scan (Some ''-1'') [] quiet no_entries (new_Set [''10.0.0.1''])) = [] \<and>
   Done \<in> set (scan (Some ''-1'') [] quiet no_entries (new_Set [''10.0.0.1''])) \<and>
   new_Set [''10.0.0.1''] = [''10.0.0.1'']"
  by code_simp

text \<open>
  C6 (as amended). When the entries that the lookups of the addresses of the set
  return inside the set have pairwise different IPs, the devices a scan emits have
  pairwise different IPs, under every schedule and every setting of the limit.
\<close>

theorem scan_emits_distinct_addresses:
  assumes "distinct (map ip (concat (map (found ipLookup (new_Set addrs)) (new_Set addrs))))"
  shows "distinct (map ip (emitted (scan env sched net ipLookup (new_Set addrs))))"
proof (cases "gt0 (MAX_CONCURRENT env)")
  case True
  with scan_run [of env sched net ipLookup "new_Set addrs"]
  have "mset (map ip (emitted (scan env sched net ipLookup (new_Set addrs))))
      = mset (map ip (concat (map (found ipLookup (new_Set addrs)) (new_Set addrs))))"
    by blast
  then have "distinct (map ip (emitted (scan env sched net ipLookup (new_Set addrs))))
      = distinct (map ip (concat (map (found ipLookup (new_Set addrs)) (new_Set addrs))))"
    by (rule mset_eq_imp_distinct_iff)
  with assms show ?thesis by blast
next
  case False
  then have "scan env sched net ipLookup (new_Set addrs) = [Done]"
    by (simp add: scan_def mapConcurrently_closed)
  then show ?thesis by simp
qed

theorem scan_emits_distinct_addresses_witness:
  "distinct (map ip (emitted (scan None [1] (\<lambda>a. (TimedOut, []))
      (\<lambda>h. if h = ''10.0.0.2'' then None else Some [dev h ''aa:bb:cc:dd:ee:ff''])
      (new_Set [''10.0.0.1'', ''10.0.0.2'', ''10.0.0.3'']))))"
proof -
  have "distinct (map ip (concat (map
      (found (\<lambda>h. if h = ''10.0.0.2'' then None else Some [dev h ''aa:bb:cc:dd:ee:ff''])
        (new_Set [''10.0.0.1'', ''10.0.0.2'', ''10.0.0.3'']))
      (new_Set [''10.0.0.1'', ''10.0.0.2'', ''10.0.0.3'']))))"
    by code_simp
  then show ?thesis by (rule scan_emits_distinct_addresses)
qed

text \<open>
  C6 as stated fails when one lookup returns two entries for the address looked up,
  as for a host seen on two interfaces: both are emitted.
\<close>

theorem scan_emits_duplicate_addresses:
  "map ip (emitted (scan None [] quiet two_interfaces (new_Set [''10.0.0.5''])))
     = [''10.0.0.5'', ''10.0.0.5''] \<and>
   \<not> distinct (map ip (emitted (scan None [] quiet two_interfaces (new_Set [''10.0.0.5'']))))"
  by code_simp

section \<open>Properties of the single-device search\<close>

lemma lower_hex:
  "(case map_of (zip ''ABCDEFGHIJKLMNOPQRSTUVWXYZ'' ''abcdefghijklmnopqrstuvwxyz'') c of
      None \<Rightarrow> c | Some l \<Rightarrow> l) \<in> set ''0123456789abcdef'' \<longleftrightarrow> is_hex_digit c"
  by (simp add: is_hex_digit_def)

lemma toHex_normalize: "toHex m = normalize_mac m"
  unfolding toHex_def normalize_mac_def toLowerCase_def filter_map o_def lower_hex ..

lemma find_append:
  "List.find P (xs @ ys) = (case List.find P xs of None \<Rightarrow> List.find P ys | Some x \<Rightarrow> Some x)"
  by (induction xs) auto

lemma search_Emits:
  "fst (search q (map Emit ds @ es)) =
     (case List.find (\<lambda>d. toHex (mac d) = toHex q \<or> ip d = q) ds of
        None \<Rightarrow> fst (search q es)
      | Some d \<Rightarrow> Fulfilled (Some d))"
  by (induction ds) (auto split: prod.split)

lemma search_scan_for:
  "outcome es = Fulfilled () \<Longrightarrow>
   fst (search q (scan_for lk S es)) =
     Fulfilled (List.find (\<lambda>d. toHex (mac d) = toHex q \<or> ip d = q) (emitted (scan_for lk S es)))"
proof (induction lk S es rule: scan_for.induct)
  case (4 lk S host es)
  then show ?case
    by (simp add: search_Emits find_append split: option.split)
qed (auto split: prod.split)

lemma scan_outcome:
  "outcome (mapConcurrently sched ipSet (MAX_CONCURRENT env) (ping_on net)) = Fulfilled ()"
  using mapConcurrently_fulfilled [of sched ipSet "MAX_CONCURRENT env" "\<lambda>x. x"]
  by (simp add: ping_on_eq)

text \<open>
  C8. The MAC test of \<open>findLocalDevice\<close>, \<open>toHex(device.mac) === toHex(query)\<close>, holds
  exactly when the two strings have the same normal form, in the loop over the table
  and in the loop over the scan alike: the search resolves to the first device, among
  the entries of the table inside the IP set followed by the devices the scan emits,
  whose MAC has the normal form of the query or whose IP is the query, and to
  \<open>undefined\<close> when there is none. The query \<open>AA:BB:CC:DD:EE:FF\<close> matches the entry
  \<open>aabbccddeeff\<close>, found in the table, or by the scan when the table does not have it.
\<close>

theorem mac_comparison_normalized:
  "(toHex (mac d) = toHex q) = (normalize_mac (mac d) = normalize_mac q) \<and>
   fst (findLocalDevice env sched net ipLookup table q ipSet) =
     Fulfilled (List.find (\<lambda>d. normalize_mac (mac d) = normalize_mac q \<or> ip d = q)
       (filter (\<lambda>d. has ipSet (ip d)) table @ emitted (scan env sched net ipLookup ipSet))) \<and>
   normalize_mac ''AA:BB:CC:DD:EE:FF'' = normalize_mac ''aabbccddeeff'' \<and>
   fst (findLocalDevice env sched net ipLookup [dev ''10.0.0.7'' ''aabbccddeeff'']
         ''AA:BB:CC:DD:EE:FF'' (new_Set [''10.0.0.7'']))
     = Fulfilled (Some (dev ''10.0.0.7'' ''aabbccddeeff'')) \<and>
   findLocalDevice None [] quiet one_host [] ''AA:BB:CC:DD:EE:FF''
       (new_Set [''10.0.0.6'', ''10.0.0.7'', ''10.0.0.8''])
     = (Fulfilled (Some (dev ''10.0.0.7'' ''aabbccddeeff'')),
        [Probe ''10.0.0.6'', Probe ''10.0.0.7'', Probe ''10.0.0.8'',
         Emit (dev ''10.0.0.7'' ''aabbccddeeff'')])"
proof -
  let ?M = "\<lambda>d. toHex (mac d) = toHex q \<or> ip d = q"
  have s: "fst (search q (scan env sched net ipLookup ipSet))
      = Fulfilled (List.find ?M (emitted (scan env sched net ipLookup ipSet)))"
    unfolding scan_def using scan_outcome by (rule search_scan_for)
  have gen: "fst (findLocalDevice env sched net ipLookup table q ipSet) =
     Fulfilled (List.find ?M
       (filter (\<lambda>d. has ipSet (ip d)) table @ emitted (scan env sched net ipLookup ipSet)))"
    by (simp add: findLocalDevice_def find_append s split: option.split)
  have ex: "normalize_mac ''AA:BB:CC:DD:EE:FF'' = normalize_mac ''aabbccddeeff''"
    by code_simp
  have "has (new_Set [''10.0.0.7'']) ''10.0.0.7''"
    by (simp add: has_def new_Set_def set_add_def)
  with ex have c: "fst (findLocalDevice env sched net ipLookup [dev ''10.0.0.7'' ''aabbccddeeff'']
         ''AA:BB:CC:DD:EE:FF'' (new_Set [''10.0.0.7'']))
     = Fulfilled (Some (dev ''10.0.0.7'' ''aabbccddeeff''))"
    by (simp add: toHex_normalize findLocalDevice_def dev_def)
  have sc: "findLocalDevice None [] quiet one_host [] ''AA:BB:CC:DD:EE:FF''
       (new_Set [''10.0.0.6'', ''10.0.0.7'', ''10.0.0.8''])
     = (Fulfilled (Some (dev ''10.0.0.7'' ''aabbccddeeff'')),
        [Probe ''10.0.0.6'', Probe ''10.0.0.7'', Probe ''10.0.0.8'',
         Emit (dev ''10.0.0.7'' ''aabbccddeeff'')])"
    by code_simp
  from gen ex c sc show ?thesis by (simp add: toHex_normalize)
qed

lemma find_filter: "List.find P (filter Q xs) = List.find (\<lambda>x. Q x \<and> P x) xs"
  by (induction xs) auto

text \<open>
  C9. If the table read at the start of \<open>findLocalDevice\<close> has an entry in the IP set
  whose normalised MAC or whose IP equals the query, the search returns the first such
  entry of the table, and no scan event takes place: no address is probed.
\<close>

theorem findLocalDevice_cache_hit:
  assumes "d \<in> set table" and "has ipSet (ip d)"
    and "toHex (mac d) = toHex macOrIP \<or> ip d = macOrIP"
  shows "\<exists>pre hit post. table = pre @ hit # post \<and>
           (\<forall>e \<in> set pre. \<not> (has ipSet (ip e) \<and>
              (toHex (mac e) = toHex macOrIP \<or> ip e = macOrIP))) \<and>
           has ipSet (ip hit) \<and> (toHex (mac hit) = toHex macOrIP \<or> ip hit = macOrIP) \<and>
           findLocalDevice env sched net ipLookup table macOrIP ipSet
             = (Fulfilled (Some hit), [])"
proof -
  let ?P = "\<lambda>e. has ipSet (ip e) \<and> (toHex (mac e) = toHex macOrIP \<or> ip e = macOrIP)"
  from assms have "\<exists>e \<in> set table. ?P e" by blast
  then obtain pre hit post where t: "table = pre @ hit # post" and hit: "?P hit"
    and pre: "\<forall>e \<in> set pre. \<not> ?P e"
    by (auto dest!: split_list_first_prop)
  have "List.find ?P (pre @ hit # post) = Some hit"
    using hit pre by (induction pre) auto
  then have "List.find (\<lambda>e. toHex (mac e) = toHex macOrIP \<or> ip e = macOrIP)
      (filter (\<lambda>e. has ipSet (ip e)) table) = Some hit"
    by (simp only: find_filter t)
  then have "findLocalDevice env sched net ipLookup table macOrIP ipSet
      = (Fulfilled (Some hit), [])"
    by (simp add: findLocalDevice_def)
  with t hit pre show ?thesis by blast
qed

theorem findLocalDevice_cache_hit_witness:
  "findLocalDevice None [] (\<lambda>a. (TimedOut, [])) (\<lambda>h. None)
     [dev ''10.0.0.9'' ''11:22:33:44:55:66'', dev ''10.0.0.7'' ''aa:bb:cc:dd:ee:ff'']
     ''AA-BB-CC-DD-EE-FF'' (new_Set [''10.0.0.7'', ''10.0.0.9''])
   = (Fulfilled (Some (dev ''10.0.0.7'' ''aa:bb:cc:dd:ee:ff'')), [])"
proof -
  let ?d = "dev ''10.0.0.7'' ''aa:bb:cc:dd:ee:ff''"
  let ?t = "[dev ''10.0.0.9'' ''11:22:33:44:55:66'', ?d]"
  let ?S = "new_Set [''10.0.0.7'', ''10.0.0.9'']"
  have 1: "?d \<in> set ?t" by simp
  have 2: "has ?S (ip ?d)" by (simp add: has_def new_Set_def set_add_def dev_def)
  have 3: "toHex (mac ?d) = toHex ''AA-BB-CC-DD-EE-FF'' \<or> ip ?d = ''AA-BB-CC-DD-EE-FF''"
    by (simp add: toHex_def toLowerCase_def dev_def)
  from findLocalDevice_cache_hit [OF 1 2 3, of None "[]" "\<lambda>a. (TimedOut, [])" "\<lambda>h. None"]
  obtain pre hit post where t: "?t = pre @ hit # post"
    and hit: "toHex (mac hit) = toHex ''AA-BB-CC-DD-EE-FF'' \<or> ip hit = ''AA-BB-CC-DD-EE-FF''"
    and r: "findLocalDevice None [] (\<lambda>a. (TimedOut, [])) (\<lambda>h. None) ?t ''AA-BB-CC-DD-EE-FF'' ?S
        = (Fulfilled (Some hit), [])"
    by blast
  from t have "hit \<in> set ?t" by (metis in_set_conv_decomp)
  then have "hit = dev ''10.0.0.9'' ''11:22:33:44:55:66'' \<or> hit = ?d" by simp
  moreover have "\<not> (toHex (mac (dev ''10.0.0.9'' ''11:22:33:44:55:66''))
        = toHex ''AA-BB-CC-DD-EE-FF''
      \<or> ip (dev ''10.0.0.9'' ''11:22:33:44:55:66'') = ''AA-BB-CC-DD-EE-FF'')"
    by (simp add: toHex_def toLowerCase_def dev_def)
  ultimately have "hit = ?d" using hit by blast
  with r show ?thesis by simp
qed

section \<open>Properties of the bulk list\<close>

lemma is_digit_cases:
  "is_digit c \<Longrightarrow> c = CHR ''0'' \<or> c = CHR ''1'' \<or> c = CHR ''2'' \<or> c = CHR ''3'' \<or> c = CHR ''4'' \<or>
     c = CHR ''5'' \<or> c = CHR ''6'' \<or> c = CHR ''7'' \<or> c = CHR ''8'' \<or> c = CHR ''9''"
  by (simp add: is_digit_def)

lemma is_digit_not_space: "is_digit c \<Longrightarrow> \<not> is_space c"
  by (drule is_digit_cases) (elim disjE; simp add: is_space_def)

lemma is_digit_digit_of: "is_digit c \<Longrightarrow> \<exists>d < 10. digit_of c = Some d"
  by (drule is_digit_cases) (elim disjE; simp add: digit_of_def)

lemma is_digit_not_special:
  "is_digit c \<Longrightarrow> c \<noteq> CHR ''x'' \<and> c \<noteq> CHR ''X'' \<and> c \<noteq> CHR ''o'' \<and> c \<noteq> CHR ''O'' \<and>
     c \<noteq> CHR ''b'' \<and> c \<noteq> CHR ''B'' \<and> c \<noteq> CHR ''+'' \<and> c \<noteq> CHR ''-'' \<and> c \<noteq> CHR ''I''"
  by (drule is_digit_cases) (elim disjE; simp)

lemma fold_digits:
  "list_all is_digit s \<Longrightarrow>
   fold (\<lambda>c acc. case acc of None \<Rightarrow> None
          | Some a \<Rightarrow> (case digit_of c of None \<Rightarrow> None
              | Some d \<Rightarrow> if d < 10 then Some (a * 10 + d) else None)) s (Some a)
     = Some (fold (\<lambda>c n. n * 10 + digit_val c) s a)"
proof (induction s arbitrary: a)
  case Nil
  show ?case by simp
next
  case (Cons c s)
  then obtain d where "d < 10" "digit_of c = Some d"
    using is_digit_digit_of [of c] by auto
  with Cons show ?case by (simp add: digit_val_def)
qed

lemma digits_value_dec:
  "s \<noteq> [] \<Longrightarrow> list_all is_digit s \<Longrightarrow> digits_value 10 s = Some (dec_value s)"
  by (simp add: digits_value_def dec_value_def fold_digits)

lemma dropWhile_keep: "xs \<noteq> [] \<Longrightarrow> \<not> P (hd xs) \<Longrightarrow> dropWhile P xs = xs"
  by (cases xs) simp_all

lemma trim_digits:
  assumes ne: "s \<noteq> []" and d: "list_all is_digit s"
  shows "trim s = s"
proof -
  from ne d have "is_digit (hd s)" and "is_digit (last s)"
    by (simp_all add: list_all_iff)
  then have h: "\<not> is_space (hd s)" and l: "\<not> is_space (hd (rev s))"
    using ne by (simp_all add: is_digit_not_space hd_rev)
  have 1: "dropWhile is_space s = s" using ne h by (rule dropWhile_keep)
  have 2: "dropWhile is_space (rev s) = rev s" using ne l by (intro dropWhile_keep) simp_all
  show ?thesis unfolding trim_def 1 2 by simp
qed

lemma digits_value_Nil: "digits_value b [] = None"
  by (simp add: digits_value_def)

lemma unsigned_decimal_digits:
  assumes ne: "s \<noteq> []" and d: "list_all is_digit s"
  shows "unsigned_decimal s = Some (of_nat (dec_value s))"
proof -
  from d have tw: "takeWhile is_digit s = s" and dw: "dropWhile is_digit s = []"
    by (auto simp: list_all_iff)
  show ?thesis
    unfolding unsigned_decimal_def tw dw
    using ne by (simp add: digits_value_dec [OF ne d] scale10_def digits_value_Nil)
qed

lemma Number_str_digits:
  assumes ne: "s \<noteq> []" and d: "list_all is_digit s"
  shows "Number_str s = Fin (of_nat (dec_value s))"
proof -
  obtain c r where s: "s = c # r" using ne by (cases s) auto
  with d have c: "is_digit c" and r: "list_all is_digit r" by simp_all
  note sp = is_digit_not_special [OF c]
  have t2: "take 2 s \<notin> set [''0x'', ''0X'', ''0o'', ''0O'', ''0b'', ''0B'']"
  proof (cases r)
    case Nil
    with s show ?thesis by simp
  next
    case (Cons c2 r2)
    with r have "is_digit c2" by simp
    from is_digit_not_special [OF this] s Cons show ?thesis by simp
  qed
  then have p: "take 2 s \<notin> set [''0x'', ''0X'']" "take 2 s \<notin> set [''0o'', ''0O'']"
    "take 2 s \<notin> set [''0b'', ''0B'']"
    by auto
  have inf: "\<not> (s = ''Infinity'' \<or> s = ''+Infinity'')" "s \<noteq> ''-Infinity''"
    using s sp by auto
  have "Number_str s =
      (case s of [] \<Rightarrow> NaN
       | c # r \<Rightarrow>
           if c = CHR ''+'' then (case unsigned_decimal r of None \<Rightarrow> NaN | Some q \<Rightarrow> Fin q)
           else if c = CHR ''-'' then
             (case unsigned_decimal r of None \<Rightarrow> NaN | Some q \<Rightarrow> Fin (- q))
           else (case unsigned_decimal s of None \<Rightarrow> NaN | Some q \<Rightarrow> Fin q))"
    unfolding Number_str_def trim_digits [OF ne d] Let_def
    using ne p inf by (simp only: if_False)
  also have "\<dots> = (case unsigned_decimal s of None \<Rightarrow> NaN | Some q \<Rightarrow> Fin q)"
    using sp by (simp add: s)
  also have "\<dots> = Fin (of_nat (dec_value s))"
    by (simp add: unsigned_decimal_digits [OF ne d])
  finally show ?thesis .
qed



lemma parseIPv4_octets:
  assumes "is_ipv4 a"
  shows "parseIPv4 a = map (\<lambda>n. Fin (of_nat n)) (ipv4_octets a)"
proof -
  have "Number_str p = Fin (of_nat (dec_value p))" if "p \<in> set (split_on CHR ''.'' a)" for p
    using assms that by (intro Number_str_digits) (simp_all add: is_ipv4_def list_all_iff)
  then show ?thesis by (simp add: parseIPv4_def ipv4_octets_def)
qed

lemma length_ipv4_octets: "is_ipv4 a \<Longrightarrow> length (ipv4_octets a) = 4"
  by (simp add: is_ipv4_def ipv4_octets_def)

lemma arrayCompare_Cons:
  "arrayCompare (Fin p # as) (Fin q # bs) =
     (if p = q \<and> as \<noteq> [] then arrayCompare as bs else Fin (sgn (p - q)))"
  by (subst arrayCompare.simps) (auto simp: Let_def sgn_eq_0_iff)

lemma arrayCompare_octets:
  "length xs = length ys \<Longrightarrow> xs \<noteq> [] \<Longrightarrow>
   gt0 (arrayCompare (map (\<lambda>n. Fin (of_nat n)) xs) (map (\<lambda>n. Fin (of_nat n)) ys))
     = (\<not> octets_le xs ys)"
proof (induction xs ys rule: list_induct2)
  case Nil
  then show ?case by simp
next
  case (Cons x xs y ys)
  consider "x < y" | "y < x" | "x = y" "xs = []" | "x = y" "xs \<noteq> []"
    by (cases x y rule: linorder_cases) auto
  then show ?case
  proof cases
    case 1
    then have "rat_of_nat x - rat_of_nat y < 0" by simp
    then have "sgn (rat_of_nat x - rat_of_nat y) = - 1" by (rule sgn_neg)
    with 1 show ?thesis by (simp add: arrayCompare_Cons)
  next
    case 2
    then have "0 < rat_of_nat x - rat_of_nat y" by simp
    then have "sgn (rat_of_nat x - rat_of_nat y) = 1" by (rule sgn_pos)
    with 2 show ?thesis by (simp add: arrayCompare_Cons)
  next
    case 3
    with Cons.hyps show ?thesis by (simp add: arrayCompare_Cons)
  next
    case 4
    with Cons.IH show ?thesis by (simp add: arrayCompare_Cons)
  qed
qed

lemma octets_le_total: "octets_le xs ys \<or> octets_le ys xs"
  by (induction xs ys rule: octets_le.induct) auto

lemma octets_le_trans: "octets_le xs ys \<Longrightarrow> octets_le ys zs \<Longrightarrow> octets_le xs zs"
proof (induction xs ys arbitrary: zs rule: octets_le.induct)
  case (3 x xs y ys)
  then show ?case by (cases zs) auto
qed auto

lemma set_insert_by [simp]: "set (insert_by cmp x ys) = insert x (set ys)"
  by (induction ys) auto

lemma mset_insert_by [simp]: "mset (insert_by cmp x ys) = add_mset x (mset ys)"
  by (induction ys) auto

lemma mset_sort_by [simp]: "mset (sort_by cmp xs) = mset xs"
  by (induction xs) (simp_all add: sort_by_def)

lemma sorted_insert_by:
  assumes cons: "\<And>a b. a \<in> A \<Longrightarrow> b \<in> A \<Longrightarrow> gt0 (cmp a b) = (\<not> octets_le (key a) (key b))"
    and "x \<in> A" and "set ys \<subseteq> A"
    and "sorted_wrt (\<lambda>a b. octets_le (key a) (key b)) ys"
  shows "sorted_wrt (\<lambda>a b. octets_le (key a) (key b)) (insert_by cmp x ys)"
  using assms(2-)
proof (induction ys)
  case Nil
  show ?case by simp
next
  case (Cons y ys)
  show ?case
  proof (cases "gt0 (cmp x y)")
    case True
    with cons [of x y] Cons.prems have "octets_le (key y) (key x)"
      using octets_le_total [of "key x" "key y"] by auto
    with True Cons show ?thesis by auto
  next
    case False
    with cons [of x y] Cons.prems have "octets_le (key x) (key y)" by auto
    with False Cons.prems show ?thesis by (auto intro: octets_le_trans)
  qed
qed

lemma sorted_sort_by:
  assumes cons: "\<And>a b. a \<in> A \<Longrightarrow> b \<in> A \<Longrightarrow> gt0 (cmp a b) = (\<not> octets_le (key a) (key b))"
    and "set xs \<subseteq> A"
  shows "sorted_wrt (\<lambda>a b. octets_le (key a) (key b)) (sort_by cmp xs)"
  using assms(2)
proof (induction xs)
  case Nil
  show ?case by (simp add: sort_by_def)
next
  case (Cons x xs)
  have s: "set (sort_by cmp xs) = set xs"
    using mset_sort_by [of cmp xs] by (metis set_mset_mset)
  have "sorted_wrt (\<lambda>a b. octets_le (key a) (key b)) (insert_by cmp x (sort_by cmp xs))"
    using Cons by (intro sorted_insert_by [where A = A] cons) (auto simp: s)
  then show ?case by (simp add: sort_by_def)
qed

lemma drain_outcome: "fst (drain es) = outcome es"
  by (induction es rule: drain.induct) (auto split: prod.split)

lemma getLocalDeviceList_result:
  "fst (getLocalDeviceList env sched net table ipSet) =
     Fulfilled (sort_by (\<lambda>a b. arrayCompare (parseIPv4 (ip a)) (parseIPv4 (ip b)))
       (filter (\<lambda>device. has ipSet (ip device)) table))"
proof -
  have "outcome (mapConcurrently sched ipSet (MAX_CONCURRENT env) (ping_on net)) = Fulfilled ()"
    using mapConcurrently_fulfilled [of sched ipSet "MAX_CONCURRENT env" "\<lambda>x. x"]
    by (simp add: ping_on_eq)
  then have "fst (drain (mapConcurrently sched ipSet (MAX_CONCURRENT env) (ping_on net)))
      = Fulfilled ()"
    by (simp add: drain_outcome)
  then show ?thesis
    by (cases "drain (mapConcurrently sched ipSet (MAX_CONCURRENT env) (ping_on net))")
       (simp add: getLocalDeviceList_def)
qed

text \<open>
  C7. When the addresses of the IP set are dotted quads, \<open>getLocalDeviceList\<close> resolves,
  for every table, every schedule and every setting of the limit, to the entries of the
  table inside the set in ascending order of their octets compared as numbers; the
  entries \<open>10.0.0.10\<close>, \<open>10.0.0.2\<close>, \<open>10.0.0.9\<close> come out as \<open>10.0.0.2\<close>, \<open>10.0.0.9\<close>,
  \<open>10.0.0.10\<close>.
\<close>

theorem getLocalDeviceList_sorted:
  assumes "list_all is_ipv4 addrs"
  shows "(\<exists>out. fst (getLocalDeviceList env sched net table (new_Set addrs)) = Fulfilled out \<and>
           sorted_wrt (\<lambda>a b. octets_le (ipv4_octets (ip a)) (ipv4_octets (ip b))) out \<and>
           mset out = mset (filter (\<lambda>device. has (new_Set addrs) (ip device)) table)) \<and>
         fst (getLocalDeviceList env sched net
               [dev ''10.0.0.10'' m1, dev ''10.0.0.2'' m2, dev ''10.0.0.9'' m3]
               (new_Set [''10.0.0.10'', ''10.0.0.2'', ''10.0.0.9'']))
           = Fulfilled [dev ''10.0.0.2'' m2, dev ''10.0.0.9'' m3, dev ''10.0.0.10'' m1]"
proof -
  define A where "A = {d :: device. is_ipv4 (ip d)}"
  define cmp :: "device \<Rightarrow> device \<Rightarrow> number"
    where "cmp = (\<lambda>a b. arrayCompare (parseIPv4 (ip a)) (parseIPv4 (ip b)))"
  define kept where "kept = filter (\<lambda>device. has (new_Set addrs) (ip device)) table"
  have cons: "gt0 (cmp a b) = (\<not> octets_le (ipv4_octets (ip a)) (ipv4_octets (ip b)))"
    if "a \<in> A" "b \<in> A" for a b
  proof -
    from that have a: "is_ipv4 (ip a)" and b: "is_ipv4 (ip b)" by (simp_all add: A_def)
    then have "length (ipv4_octets (ip a)) = length (ipv4_octets (ip b))"
      and "ipv4_octets (ip a) \<noteq> []"
      using length_ipv4_octets [of "ip a"] length_ipv4_octets [of "ip b"] by auto
    then show ?thesis
      unfolding cmp_def parseIPv4_octets [OF a] parseIPv4_octets [OF b]
      by (rule arrayCompare_octets)
  qed
  have "set kept \<subseteq> A"
    using assms new_Set_props [of addrs] by (auto simp: kept_def A_def has_def list_all_iff)
  with cons have "sorted_wrt (\<lambda>a b. octets_le (ipv4_octets (ip a)) (ipv4_octets (ip b)))
      (sort_by cmp kept)"
    by (rule sorted_sort_by)
  moreover have "mset (sort_by cmp kept) = mset kept" by simp
  moreover have "fst (getLocalDeviceList env sched net table (new_Set addrs))
      = Fulfilled (sort_by cmp kept)"
    by (simp add: getLocalDeviceList_result cmp_def kept_def)
  ultimately have general:
    "\<exists>out. fst (getLocalDeviceList env sched net table (new_Set addrs)) = Fulfilled out \<and>
       sorted_wrt (\<lambda>a b. octets_le (ipv4_octets (ip a)) (ipv4_octets (ip b))) out \<and>
       mset out = mset (filter (\<lambda>device. has (new_Set addrs) (ip device)) table)"
    unfolding kept_def by blast
  have "sort_by (\<lambda>a b. arrayCompare (parseIPv4 (ip a)) (parseIPv4 (ip b)))
      (filter (\<lambda>device. has (new_Set [''10.0.0.10'', ''10.0.0.2'', ''10.0.0.9'']) (ip device))
        [dev ''10.0.0.10'' m1, dev ''10.0.0.2'' m2, dev ''10.0.0.9'' m3])
    = [dev ''10.0.0.2'' m2, dev ''10.0.0.9'' m3, dev ''10.0.0.10'' m1]"
    by code_simp
  then have "fst (getLocalDeviceList env sched net
               [dev ''10.0.0.10'' m1, dev ''10.0.0.2'' m2, dev ''10.0.0.9'' m3]
               (new_Set [''10.0.0.10'', ''10.0.0.2'', ''10.0.0.9'']))
           = Fulfilled [dev ''10.0.0.2'' m2, dev ''10.0.0.9'' m3, dev ''10.0.0.10'' m1]"
    by (simp only: getLocalDeviceList_result)
  with general show ?thesis by blast
qed

theorem getLocalDeviceList_sorted_witness:
  "list_all is_ipv4 [''10.0.0.2'', ''10.0.0.9'', ''10.0.0.10''] \<and>
   fst (getLocalDeviceList None [2] (\<lambda>a. (TimedOut, []))
         [dev ''10.0.0.10'' ''aa:aa:aa:aa:aa:10'', dev ''10.0.0.2'' ''aa:aa:aa:aa:aa:02'',
          dev ''10.0.0.77'' ''aa:aa:aa:aa:aa:77'', dev ''10.0.0.9'' ''aa:aa:aa:aa:aa:09'']
         (new_Set [''10.0.0.2'', ''10.0.0.9'', ''10.0.0.10'']))
     = Fulfilled [dev ''10.0.0.2'' ''aa:aa:aa:aa:aa:02'', dev ''10.0.0.9'' ''aa:aa:aa:aa:aa:09'',
          dev ''10.0.0.10'' ''aa:aa:aa:aa:aa:10''] \<and>
   sorted_wrt (\<lambda>a b. octets_le (ipv4_octets (ip a)) (ipv4_octets (ip b)))
     [dev ''10.0.0.2'' ''aa:aa:aa:aa:aa:02'', dev ''10.0.0.9'' ''aa:aa:aa:aa:aa:09'',
      dev ''10.0.0.10'' ''aa:aa:aa:aa:aa:10'']"
proof -
  have h: "list_all is_ipv4 [''10.0.0.2'', ''10.0.0.9'', ''10.0.0.10'']"
    by code_simp
  have e: "fst (getLocalDeviceList None [2] (\<lambda>a. (TimedOut, []))
         [dev ''10.0.0.10'' ''aa:aa:aa:aa:aa:10'', dev ''10.0.0.2'' ''aa:aa:aa:aa:aa:02'',
          dev ''10.0.0.77'' ''aa:aa:aa:aa:aa:77'', dev ''10.0.0.9'' ''aa:aa:aa:aa:aa:09'']
         (new_Set [''10.0.0.2'', ''10.0.0.9'', ''10.0.0.10'']))
     = Fulfilled [dev ''10.0.0.2'' ''aa:aa:aa:aa:aa:02'', dev ''10.0.0.9'' ''aa:aa:aa:aa:aa:09'',
          dev ''10.0.0.10'' ''aa:aa:aa:aa:aa:10'']"
    by code_simp
  from getLocalDeviceList_sorted [OF h, of None "[2]" "\<lambda>a. (TimedOut, [])"
      "[dev ''10.0.0.10'' ''aa:aa:aa:aa:aa:10'', dev ''10.0.0.2'' ''aa:aa:aa:aa:aa:02'',
        dev ''10.0.0.77'' ''aa:aa:aa:aa:aa:77'', dev ''10.0.0.9'' ''aa:aa:aa:aa:aa:09'']"]
  have "\<exists>out. Fulfilled [dev ''10.0.0.2'' ''aa:aa:aa:aa:aa:02'',
        dev ''10.0.0.9'' ''aa:aa:aa:aa:aa:09'', dev ''10.0.0.10'' ''aa:aa:aa:aa:aa:10'']
        = Fulfilled out \<and>
      sorted_wrt (\<lambda>a b. octets_le (ipv4_octets (ip a)) (ipv4_octets (ip b))) out"
    unfolding e by blast
  with h e show ?thesis by simp
qed

section \<open>The concurrency setting\<close>

lemma Number_32: "Number_str ''32'' = Fin 32"
  by code_simp

lemma Number_empty: "Number_str '''' = Fin 0"
  by code_simp

lemma Number_0: "Number_str ''0'' = Fin 0"
  by code_simp

lemma Number_minus_4: "Number_str ''-4'' = Fin (- 4)"
  by code_simp

lemma Number_2_5: "Number_str ''2.5'' = Fin (5 / 2)"
  by code_simp

text \<open>
  C10. The limit is \<open>32\<close> when the setting is unset, empty or \<open>0\<close>, and for every string
  that converts to \<open>NaN\<close> or to zero; every other string gives its number as the limit,
  negative and fractional ones included. \<open>scan\<close> and \<open>getLocalDeviceList\<close> hand this
  value to the scheduler: a scan with the setting unset is the scan with the setting
  \<open>32\<close>, a scan with the setting \<open>-4\<close> ends without a probe, and a scan of four addresses
  with the setting \<open>2.5\<close> starts with three probes.
\<close>

theorem MAX_CONCURRENT_default_32:
  "MAX_CONCURRENT None = Fin 32 \<and>
   MAX_CONCURRENT (Some '''') = Fin 32 \<and>
   MAX_CONCURRENT (Some ''0'') = Fin 32 \<and>
   MAX_CONCURRENT (Some s) =
     (if Number_str s = NaN \<or> Number_str s = Fin 0 then Fin 32 else Number_str s) \<and>
   MAX_CONCURRENT (Some ''-4'') = Fin (- 4) \<and>
   MAX_CONCURRENT (Some ''2.5'') = Fin (5 / 2) \<and>
   scan env sched net ipLookup ipSet =
     scan_for ipLookup ipSet (mapConcurrently sched ipSet (MAX_CONCURRENT env) (ping_on net)) \<and>
   snd (getLocalDeviceList env sched net table ipSet) =
     snd (drain (mapConcurrently sched ipSet (MAX_CONCURRENT env) (ping_on net))) \<and>
   scan None sched net ipLookup ipSet = scan (Some ''32'') sched net ipLookup ipSet \<and>
   scan (Some ''-4'') sched net ipLookup ipSet = [Done] \<and>
   take 3 (scan (Some ''2.5'') sched net ipLookup [a, b, c, d]) = [Probe a, Probe b, Probe c]"
proof -
  have gen: "MAX_CONCURRENT (Some s) =
     (if Number_str s = NaN \<or> Number_str s = Fin 0 then Fin 32 else Number_str s)"
    by (cases "Number_str s") (simp_all add: MAX_CONCURRENT_def)
  have a: "MAX_CONCURRENT None = Fin 32"
    by (simp add: MAX_CONCURRENT_def)
  have b: "MAX_CONCURRENT (Some ''32'') = Fin 32"
    by (simp add: MAX_CONCURRENT_def Number_32)
  have c: "MAX_CONCURRENT (Some '''') = Fin 32"
    by (simp add: MAX_CONCURRENT_def Number_empty)
  have d: "MAX_CONCURRENT (Some ''0'') = Fin 32"
    by (simp add: MAX_CONCURRENT_def Number_0)
  have e: "MAX_CONCURRENT (Some ''-4'') = Fin (- 4)"
    by (simp add: MAX_CONCURRENT_def Number_minus_4)
  have f: "MAX_CONCURRENT (Some ''2.5'') = Fin (5 / 2)"
    by (simp add: MAX_CONCURRENT_def Number_2_5)
  have g: "snd (getLocalDeviceList env sched net table ipSet) =
     snd (drain (mapConcurrently sched ipSet (MAX_CONCURRENT env) (ping_on net)))"
    by (simp add: getLocalDeviceList_def split: prod.split promise.split)
  have h: "scan (Some ''-4'') sched net ipLookup ipSet = [Done]"
    by (simp add: scan_def e mapConcurrently_closed)
  have i: "take 3 (scan (Some ''2.5'') sched net ipLookup [a, b, c, d])
      = [Probe a, Probe b, Probe c]"
    by (simp add: scan_def f mapConcurrently_def takeFromIter_def entries_def)
  show ?thesis
    using gen a c d e f g h i by (simp add: scan_def b)
qed


end
